theory Spec2Isabelle
  imports Main "HOL-Library.Multiset" "HOL-Library.List_Lexorder"
begin

section \<open>Strings\<close>

text \<open>
  A Python \<open>str\<close> is a sequence of Unicode code points. A code point is modelled as a
  natural number and a string as a list of them, so that the length, the indexing and the
  ordering of the model are those of Python (and not those of a UTF-8 byte sequence).
  \<open>ustr\<close> turns an ASCII literal of the source into its code points.
\<close>

type_synonym pychar = nat
type_synonym pystr = "pychar list"

definition ustr :: "string \<Rightarrow> pystr" where
  "ustr s = map of_char s"

text \<open>
  \<open>isspace\<close> is the whitespace test of CPython (\<open>Py_UNICODE_ISSPACE\<close>): the regular
  expression class \<open>\s\<close> on a \<open>str\<close> pattern and \<open>str.strip()\<close> with no argument both
  use it.
\<close>

definition isspace :: "pychar \<Rightarrow> bool" where
  "isspace c =
     ((9 \<le> c \<and> c \<le> 13) \<or> (28 \<le> c \<and> c \<le> 32) \<or> c = 133 \<or> c = 160 \<or> c = 5760
      \<or> (8192 \<le> c \<and> c \<le> 8202) \<or> c = 8232 \<or> c = 8233 \<or> c = 8239 \<or> c = 8287
      \<or> c = 12288)"

text \<open>
  \<open>str.lower()\<close>. On a string of ASCII characters it maps \<open>A\<close>..\<open>Z\<close> to \<open>a\<close>..\<open>z\<close> and
  leaves everything else alone. On a string with a character beyond ASCII the result comes
  from the Unicode case tables of the interpreter (and depends on the context of a
  character, as for the final sigma); those tables are the parameter \<open>uc\<close>.
\<close>

definition ascii_lower :: "pychar \<Rightarrow> pychar" where
  "ascii_lower c = (if 65 \<le> c \<and> c \<le> 90 then c + 32 else c)"

definition lower :: "(pystr \<Rightarrow> pystr) \<Rightarrow> pystr \<Rightarrow> pystr" where
  "lower uc s = (if list_ex (\<lambda>c. 128 \<le> c) s then uc s else map ascii_lower s)"

section \<open>Text normalisation\<close>

text \<open>
  \<open>re.sub(r"\s+", " ", text)\<close>: scanning from the left, every maximal run of whitespace
  characters is replaced by one space (code point 32).
\<close>

function re_sub_ws :: "pystr \<Rightarrow> pystr" where
  "re_sub_ws [] = []"
| "re_sub_ws (c # cs) =
     (if isspace c then 32 # re_sub_ws (dropWhile isspace cs) else c # re_sub_ws cs)"
  by pat_completeness auto
termination
  by (relation "measure length") (auto simp: length_dropWhile_le less_Suc_eq_le)

text \<open>\<open>str.strip()\<close>: leading and trailing whitespace removed.\<close>

definition strip :: "pystr \<Rightarrow> pystr" where
  "strip s = rev (dropWhile isspace (rev (dropWhile isspace s)))"

text \<open>The source's \<open>_normalize_text\<close> (a name cannot start with an underscore here).\<close>

definition normalize_text :: "pystr \<Rightarrow> pystr" where
  "normalize_text text = strip (re_sub_ws text)"

text \<open>
  The shape of a normalised string, for the proofs: every whitespace character is a
  space, and the character after it, if there is one, is not whitespace.
\<close>

fun single_spaced :: "pystr \<Rightarrow> bool" where
  "single_spaced [] = True"
| "single_spaced [c] = (isspace c \<longrightarrow> c = 32)"
| "single_spaced (c # d # cs) = ((isspace c \<longrightarrow> c = 32 \<and> \<not> isspace d) \<and> single_spaced (d # cs))"

text \<open>What holds of every text node: it is not empty and normalising it changes nothing.\<close>

definition text_node_inv :: "pystr \<Rightarrow> bool" where
  "text_node_inv t = (t \<noteq> [] \<and> normalize_text t = t)"

section \<open>The content extractor\<close>

text \<open>
  \<open>EXCLUDED_TEXT_TAGS\<close>, and the state of a \<open>VariantExtractor\<close>: the nesting stack
  (a Python list, the most recently opened element last) and the three collections.
\<close>

definition EXCLUDED_TEXT_TAGS :: "pystr set" where
  "EXCLUDED_TEXT_TAGS = {ustr ''script'', ustr ''style'', ustr ''svg'', ustr ''defs''}"

record extractor =
  stack :: "pystr list"
  text_nodes :: "pystr list"
  ids :: "pystr set"
  anchor_hrefs :: "pystr set"

definition init :: extractor where
  "init = \<lparr>stack = [], text_nodes = [], ids = {}, anchor_hrefs = {}\<rparr>"

definition in_excluded_text_context :: "extractor \<Rightarrow> bool" where
  "in_excluded_text_context st = list_ex (\<lambda>tag. tag \<in> EXCLUDED_TEXT_TAGS) (stack st)"

text \<open>
  The body of the loop over the attributes in \<open>handle_starttag\<close>. An attribute is a
  pair of a name and a value, the value \<open>None\<close> when the attribute has none. The test
  \<open>value\<close> of the source holds for a value that is present and not empty.
\<close>

fun attr_step :: "(pystr \<Rightarrow> pystr) \<Rightarrow> pystr \<Rightarrow> bool \<Rightarrow> extractor \<Rightarrow> pystr \<times> pystr option
    \<Rightarrow> extractor" where
  "attr_step uc tag in_svg_context st (name, val) =
     (if name = [] then st
      else
        let name_l = lower uc name;
            st1 = (case val of
                     Some v \<Rightarrow>
                       if name_l = ustr ''id'' \<and> v \<noteq> [] \<and> \<not> in_svg_context
                       then st\<lparr>ids := insert v (ids st)\<rparr> else st
                   | None \<Rightarrow> st)
        in (case val of
              Some v \<Rightarrow>
                if tag = ustr ''a'' \<and> name_l = ustr ''href''
                then st1\<lparr>anchor_hrefs := insert v (anchor_hrefs st1)\<rparr> else st1
            | None \<Rightarrow> st1))"

definition handle_starttag :: "(pystr \<Rightarrow> pystr) \<Rightarrow> extractor \<Rightarrow> pystr
    \<Rightarrow> (pystr \<times> pystr option) list \<Rightarrow> extractor" where
  "handle_starttag uc st tag0 attrs =
     (let tag = lower uc tag0;
          st1 = st\<lparr>stack := stack st @ [tag]\<rparr>;
          in_svg_context = (ustr ''svg'' \<in> set (stack st1))
      in foldl (attr_step uc tag in_svg_context) st1 attrs)"

text \<open>
  \<open>handle_endtag\<close>. The loop runs \<open>i\<close> from \<open>len(stack) - 1\<close> down to \<open>0\<close>; the
  third argument of \<open>endtag_loop\<close> is the number of indices still to visit, so the index
  visited is one less. Reading a list out of range raises \<open>IndexError\<close> in Python, which
  the model keeps as a result. The other errors are those of the program below:
  \<open>ReadError\<close> for what \<open>read_text\<close> raises (an \<open>OSError\<close> or a
  \<open>UnicodeDecodeError\<close>), \<open>OSError\<close> for what \<open>Path.exists\<close> raises, and
  \<open>AssertionError\<close>, which the parser of the library raises on some documents.
\<close>

datatype py_error = IndexError | ReadError | OSError | AssertionError

definition getitem :: "'a list \<Rightarrow> nat \<Rightarrow> py_error + 'a" where
  "getitem xs i = (if i < length xs then Inr (xs ! i) else Inl IndexError)"

fun endtag_loop :: "pystr list \<Rightarrow> pystr \<Rightarrow> nat \<Rightarrow> py_error + pystr list" where
  "endtag_loop stk tag 0 = Inr stk"
| "endtag_loop stk tag (Suc i) =
     (case getitem stk i of
        Inl e \<Rightarrow> Inl e
      | Inr t \<Rightarrow> if t = tag then Inr (take i stk) else endtag_loop stk tag i)"

definition handle_endtag :: "(pystr \<Rightarrow> pystr) \<Rightarrow> extractor \<Rightarrow> pystr \<Rightarrow> py_error + extractor" where
  "handle_endtag uc st tag0 =
     (let tag = lower uc tag0
      in case endtag_loop (stack st) tag (length (stack st)) of
           Inl e \<Rightarrow> Inl e
         | Inr stk \<Rightarrow> Inr (st\<lparr>stack := stk\<rparr>))"

definition handle_data :: "extractor \<Rightarrow> pystr \<Rightarrow> extractor" where
  "handle_data st data =
     (if in_excluded_text_context st then st
      else
        let normalized = normalize_text data
        in if normalized = [] then st
           else st\<lparr>text_nodes := text_nodes st @ [normalized]\<rparr>)"

section \<open>Scanner events\<close>

text \<open>
  \<open>HTMLParser.feed\<close> and \<open>close\<close> call the three handlers above, in document order; a
  self-closing tag calls \<open>handle_starttag\<close> and then \<open>handle_endtag\<close>, and the handlers
  for comments, declarations and processing instructions are the empty ones of the base
  class. The calls made for a document are a list of events. An exception raised by a
  handler leaves \<open>feed\<close>, so the events after it are not handled.
\<close>

datatype event =
    StartTag pystr "(pystr \<times> pystr option) list"
  | EndTag pystr
  | Text pystr

fun dispatch :: "(pystr \<Rightarrow> pystr) \<Rightarrow> extractor \<Rightarrow> event \<Rightarrow> py_error + extractor" where
  "dispatch uc st (StartTag tag attrs) = Inr (handle_starttag uc st tag attrs)"
| "dispatch uc st (EndTag tag) = handle_endtag uc st tag"
| "dispatch uc st (Text data) = Inr (handle_data st data)"

fun feed :: "(pystr \<Rightarrow> pystr) \<Rightarrow> extractor \<Rightarrow> event list \<Rightarrow> py_error + extractor" where
  "feed uc st [] = Inr st"
| "feed uc st (e # es) =
     (case dispatch uc st e of Inl err \<Rightarrow> Inl err | Inr st' \<Rightarrow> feed uc st' es)"

section \<open>Counters\<close>

text \<open>
  \<open>collections.Counter\<close> is a dictionary from elements to integer counts that keeps the
  order in which its keys were first inserted: an association list with distinct keys.
  \<open>c[k]\<close> is \<open>0\<close> for a key that is not there. Two counters are equal when all counts
  agree, a missing count taken as zero. \<open>a - b\<close> keeps the positive differences, in the
  order of \<open>a\<close>, followed by the negated negative counts of \<open>b\<close> for keys not in \<open>a\<close>.
  \<open>most_common(n)\<close> is the first \<open>n\<close> items by decreasing count, items of equal count in
  the order of the counter.
\<close>

type_synonym counter = "(pystr \<times> int) list"

fun counter_incr :: "counter \<Rightarrow> pystr \<Rightarrow> counter" where
  "counter_incr [] k = [(k, 1)]"
| "counter_incr ((k', n) # c) k =
     (if k' = k then (k', n + 1) # c else (k', n) # counter_incr c k)"

definition Counter :: "pystr list \<Rightarrow> counter" where
  "Counter xs = foldl counter_incr [] xs"

definition counter_get :: "counter \<Rightarrow> pystr \<Rightarrow> int" where
  "counter_get c k = (case map_of c k of None \<Rightarrow> 0 | Some n \<Rightarrow> n)"

definition counter_eq :: "counter \<Rightarrow> counter \<Rightarrow> bool" where
  "counter_eq a b = list_all (\<lambda>k. counter_get a k = counter_get b k) (map fst a @ map fst b)"

definition counter_sub :: "counter \<Rightarrow> counter \<Rightarrow> counter" where
  "counter_sub a b =
     filter (\<lambda>(k, n). 0 < n) (map (\<lambda>(k, n). (k, n - counter_get b k)) a)
     @ map (\<lambda>(k, n). (k, 0 - n)) (filter (\<lambda>(k, n). map_of a k = None \<and> n < 0) b)"

fun insert_desc :: "pystr \<times> int \<Rightarrow> counter \<Rightarrow> counter" where
  "insert_desc x [] = [x]"
| "insert_desc x (y # ys) = (if snd x \<le> snd y then y # insert_desc x ys else x # y # ys)"

definition most_common :: "nat \<Rightarrow> counter \<Rightarrow> counter" where
  "most_common n c = take n (foldl (\<lambda>acc x. insert_desc x acc) [] c)"

section \<open>The report\<close>

text \<open>
  What the program prints is kept as a list of messages, one constructor for each
  \<open>print\<close> call of the source, carrying the values that the call formats. The preview of
  \<open>_diff_preview\<close> is the list of its entries (index, base value, variant value); it is
  printed by one call.
\<close>

type_synonym path = pystr

datatype msg =
    Base_file_not_found path
  | Variant_file_not_found path
  | Text_nodes_mismatch_unordered
  | Text_nodes_mismatch
  | Base_text_nodes nat
  | Var_text_nodes nat
  | Missing_text_top_20
  | Extra_text_top_20
  | Count_times_text int pystr
  | Diff_preview "(nat \<times> pystr \<times> pystr) list"
  | ID_set_mismatch
  | Missing_IDs nat "pystr list"
  | Extra_IDs nat "pystr list"
  | Anchor_href_set_mismatch
  | Missing_hrefs nat "pystr list"
  | Extra_hrefs nat "pystr list"
  | OK

fun diff_preview_loop :: "pystr list \<Rightarrow> pystr list \<Rightarrow> nat \<Rightarrow> nat list \<Rightarrow> nat
    \<Rightarrow> (nat \<times> pystr \<times> pystr) list \<Rightarrow> (nat \<times> pystr \<times> pystr) list" where
  "diff_preview_loop a b limit [] shown out = out"
| "diff_preview_loop a b limit (i # is) shown out =
     (let av = (if i < length a then a ! i else ustr ''<missing>'');
          bv = (if i < length b then b ! i else ustr ''<missing>'')
      in if av = bv then diff_preview_loop a b limit is shown out
         else
           let out' = out @ [(i, av, bv)];
               shown' = shown + 1
           in if limit \<le> shown' then out' else diff_preview_loop a b limit is shown' out')"

definition diff_preview :: "pystr list \<Rightarrow> pystr list \<Rightarrow> nat \<Rightarrow> (nat \<times> pystr \<times> pystr) list" where
  "diff_preview a b limit =
     (let max_len = max (length a) (length b)
      in diff_preview_loop a b limit [0 ..< max_len] 0 [])"

text \<open>
  The three checks of \<open>main\<close>, in the order of the source. Each takes the flag \<open>ok\<close> and
  the messages printed so far and returns them updated.
\<close>

definition check_text :: "bool \<Rightarrow> extractor \<Rightarrow> extractor \<Rightarrow> bool \<times> msg list \<Rightarrow> bool \<times> msg list" where
  "check_text unordered_text base_ex var_ex acc =
     (case acc of (ok, out) \<Rightarrow>
        if unordered_text then
          let base_counter = Counter (text_nodes base_ex);
              var_counter = Counter (text_nodes var_ex)
          in if \<not> counter_eq base_counter var_counter then
               let missing = counter_sub base_counter var_counter;
                   extra = counter_sub var_counter base_counter
               in (False,
                   out @ [Text_nodes_mismatch_unordered,
                          Base_text_nodes (length (text_nodes base_ex)),
                          Var_text_nodes (length (text_nodes var_ex))]
                       @ (if missing \<noteq> []
                          then Missing_text_top_20
                                 # map (\<lambda>(t, c). Count_times_text c t) (most_common 20 missing)
                          else [])
                       @ (if extra \<noteq> []
                          then Extra_text_top_20
                                 # map (\<lambda>(t, c). Count_times_text c t) (most_common 20 extra)
                          else []))
             else (ok, out)
        else if text_nodes base_ex \<noteq> text_nodes var_ex then
          (False,
           out @ [Text_nodes_mismatch,
                  Base_text_nodes (length (text_nodes base_ex)),
                  Var_text_nodes (length (text_nodes var_ex)),
                  Diff_preview (diff_preview (text_nodes base_ex) (text_nodes var_ex) 10)])
        else (ok, out))"

definition check_ids :: "extractor \<Rightarrow> extractor \<Rightarrow> bool \<times> msg list \<Rightarrow> bool \<times> msg list" where
  "check_ids base_ex var_ex acc =
     (case acc of (ok, out) \<Rightarrow>
        if ids base_ex \<noteq> ids var_ex then
          let missing = sorted_list_of_set (ids base_ex - ids var_ex);
              extra = sorted_list_of_set (ids var_ex - ids base_ex)
          in (False,
              out @ [ID_set_mismatch]
                  @ (if missing \<noteq> [] then [Missing_IDs (length missing) (take 30 missing)] else [])
                  @ (if extra \<noteq> [] then [Extra_IDs (length extra) (take 30 extra)] else []))
        else (ok, out))"

definition check_hrefs :: "extractor \<Rightarrow> extractor \<Rightarrow> bool \<times> msg list \<Rightarrow> bool \<times> msg list" where
  "check_hrefs base_ex var_ex acc =
     (case acc of (ok, out) \<Rightarrow>
        if anchor_hrefs base_ex \<noteq> anchor_hrefs var_ex then
          let missing = sorted_list_of_set (anchor_hrefs base_ex - anchor_hrefs var_ex);
              extra = sorted_list_of_set (anchor_hrefs var_ex - anchor_hrefs base_ex)
          in (False,
              out @ [Anchor_href_set_mismatch]
                  @ (if missing \<noteq> [] then [Missing_hrefs (length missing) (take 30 missing)] else [])
                  @ (if extra \<noteq> [] then [Extra_hrefs (length extra) (take 30 extra)] else []))
        else (ok, out))"

definition run_checks :: "bool \<Rightarrow> extractor \<Rightarrow> extractor \<Rightarrow> bool \<times> msg list" where
  "run_checks unordered_text base_ex var_ex =
     check_hrefs base_ex var_ex
       (check_ids base_ex var_ex
          (check_text unordered_text base_ex var_ex (True, [])))"

text \<open>
  The text check in the words of the specification, to compare the checks of the source
  with: equal sequences, or equal multisets in the unordered mode.
\<close>

definition text_pass :: "bool \<Rightarrow> extractor \<Rightarrow> extractor \<Rightarrow> bool" where
  "text_pass unordered_text base_ex var_ex =
     (if unordered_text then mset (text_nodes base_ex) = mset (text_nodes var_ex)
      else text_nodes base_ex = text_nodes var_ex)"

section \<open>The program\<close>

text \<open>
  The file system maps a path to what \<open>stat\<close> finds there.
  \<^item> \<open>None\<close>: no file. \<open>stat\<close> fails with \<open>ENOENT\<close>, \<open>ENOTDIR\<close>, \<open>EBADF\<close> or \<open>ELOOP\<close>,
    or the path cannot be encoded, and \<open>Path.exists()\<close> returns \<open>False\<close>.
  \<^item> \<open>Some Stat_raises\<close>: \<open>stat\<close> fails with another \<open>OSError\<close> (a name longer than the
    system allows, a directory that may not be searched), which \<open>Path.exists()\<close> raises
    again; a file may or may not be there.
  \<^item> \<open>Some (Text_file s)\<close>: a file that \<open>read_text\<close> returns the text \<open>s\<close> of.
  \<^item> \<open>Some Unreadable\<close>: something that exists and that \<open>read_text\<close> raises on (a
    directory, a file that is not UTF-8).

  The scanner of the library (\<open>HTMLParser.feed\<close> and \<open>close\<close>) is the parameter \<open>scan\<close>.
  For the text of a document it gives the events it delivers to the handlers and, when
  the parser itself raises, the exception it raises after them: the parser of CPython 3.11
  raises \<open>AssertionError\<close> on a marked section with an unknown keyword, such as
  \<open><![x]>\<close>. Neither \<open>extract\<close> nor \<open>main\<close> catches an exception, so one that is raised
  ends the run.

  What a run does is the list of its actions, in order: the existence tests, the reads,
  the parses and the prints. Both output streams are taken to accept what is printed.
\<close>

datatype fs_entry = Stat_raises | Text_file pystr | Unreadable

datatype stream = Stdout | Stderr

datatype action =
    Path_exists path
  | Read_text path
  | Parse pystr
  | Print stream msg

datatype result = Returned int | Raised py_error

text \<open>The source's \<open>extract\<close> (the name is a command of Isabelle).\<close>

definition extract_file :: "(pystr \<Rightarrow> pystr) \<Rightarrow> (pystr \<Rightarrow> event list \<times> py_error option)
    \<Rightarrow> (path \<Rightarrow> fs_entry option) \<Rightarrow> path \<Rightarrow> action list \<times> (py_error + extractor)" where
  "extract_file uc scan fs p =
     (case fs p of
        Some (Text_file s) \<Rightarrow>
          (case scan s of
             (evs, exc) \<Rightarrow>
               ([Read_text p, Parse s],
                case feed uc init evs of
                  Inl e \<Rightarrow> Inl e
                | Inr st \<Rightarrow> (case exc of Some e \<Rightarrow> Inl e | None \<Rightarrow> Inr st)))
      | _ \<Rightarrow> ([Read_text p], Inl ReadError))"

text \<open>
  \<open>main\<close>, from the parsed arguments on: \<open>base\<close>, \<open>variant\<close> and the flag
  \<open>--unordered-text\<close>. Each call of \<open>exists()\<close> raises, returns \<open>False\<close> or returns
  \<open>True\<close>.
\<close>

definition main :: "(pystr \<Rightarrow> pystr) \<Rightarrow> (pystr \<Rightarrow> event list \<times> py_error option)
    \<Rightarrow> (path \<Rightarrow> fs_entry option) \<Rightarrow> path \<Rightarrow> path \<Rightarrow> bool \<Rightarrow> action list \<times> result" where
  "main uc scan fs base variant unordered_text =
     (if fs base = Some Stat_raises then
        ([Path_exists base], Raised OSError)
      else if fs base = None then
        ([Path_exists base, Print Stderr (Base_file_not_found base)], Returned 2)
      else if fs variant = Some Stat_raises then
        ([Path_exists base, Path_exists variant], Raised OSError)
      else if fs variant = None then
        ([Path_exists base, Path_exists variant,
          Print Stderr (Variant_file_not_found variant)], Returned 2)
      else
        case extract_file uc scan fs base of
          (t1, Inl e) \<Rightarrow> ([Path_exists base, Path_exists variant] @ t1, Raised e)
        | (t1, Inr base_ex) \<Rightarrow>
            (case extract_file uc scan fs variant of
               (t2, Inl e) \<Rightarrow> ([Path_exists base, Path_exists variant] @ t1 @ t2, Raised e)
             | (t2, Inr var_ex) \<Rightarrow>
                 (case run_checks unordered_text base_ex var_ex of
                    (ok, out) \<Rightarrow>
                      if ok then
                        ([Path_exists base, Path_exists variant] @ t1 @ t2
                           @ map (Print Stderr) out @ [Print Stdout OK], Returned 0)
                      else
                        ([Path_exists base, Path_exists variant] @ t1 @ t2
                           @ map (Print Stderr) out, Returned 1))))"

section \<open>Properties of the normalisation\<close>

lemma dropWhile_cases:
  obtains "dropWhile P xs = []" | y ys where "dropWhile P xs = y # ys" "\<not> P y"
proof (cases "dropWhile P xs")
  case Nil
  then show ?thesis by (rule that(1))
next
  case (Cons y ys)
  then have "dropWhile P xs \<noteq> []" by simp
  then have "\<not> P (hd (dropWhile P xs))" by (rule hd_dropWhile)
  with Cons have "\<not> P y" by simp
  with Cons show ?thesis by (rule that(2))
qed

lemma isspace_32: "isspace 32"
  by (simp add: isspace_def)

lemma single_spaced_re_sub_ws: "single_spaced (re_sub_ws s)"
proof (induction s rule: re_sub_ws.induct)
  case 1
  show ?case by simp
next
  case (2 c cs)
  show ?case
  proof (cases "isspace c")
    case True
    note sp = this
    from 2(1)[OF True] have ih: "single_spaced (re_sub_ws (dropWhile isspace cs))" .
    show ?thesis
    proof (cases rule: dropWhile_cases[of isspace cs])
      case 1
      then have "re_sub_ws (c # cs) = [32]" using sp by (simp del: dropWhile_eq_Nil_conv)
      then show ?thesis by (simp add: isspace_32)
    next
      case (2 y ys)
      then have "re_sub_ws (c # cs) = 32 # y # re_sub_ws ys" using sp by simp
      moreover from ih 2 have "single_spaced (y # re_sub_ws ys)" by simp
      ultimately show ?thesis using 2(2) by simp
    qed
  next
    case False
    with 2(2) have ih: "single_spaced (re_sub_ws cs)" by simp
    show ?thesis
    proof (cases "re_sub_ws cs")
      case Nil
      with False show ?thesis by simp
    next
      case (Cons d ds)
      with False ih show ?thesis by simp
    qed
  qed
qed

lemma re_sub_ws_fixed: "single_spaced s \<Longrightarrow> re_sub_ws s = s"
proof (induction s rule: single_spaced.induct)
  case 1
  show ?case by simp
next
  case (2 c)
  then show ?case by simp
next
  case (3 c d cs)
  then have ih: "re_sub_ws (d # cs) = d # cs" by simp
  show ?case
  proof (cases "isspace c")
    case True
    with 3(2) have "\<not> isspace d" by simp
    then have dw: "dropWhile isspace (d # cs) = d # cs" by simp
    from True have "re_sub_ws (c # d # cs) = 32 # re_sub_ws (dropWhile isspace (d # cs))"
      by (simp only: re_sub_ws.simps if_True)
    also have "\<dots> = 32 # d # cs" by (simp only: dw ih)
    also from True 3(2) have "32 = c" by simp
    finally show ?thesis .
  next
    case False
    then have "re_sub_ws (c # d # cs) = c # re_sub_ws (d # cs)"
      by (simp only: re_sub_ws.simps if_False)
    with ih show ?thesis by (simp only:)
  qed
qed

lemma single_spaced_tl: "single_spaced (c # cs) \<Longrightarrow> single_spaced cs"
  by (cases cs) auto

lemma single_spaced_dropWhile: "single_spaced s \<Longrightarrow> single_spaced (dropWhile P s)"
  by (induction s) (auto dest: single_spaced_tl)

lemma single_spaced_prefix: "single_spaced (xs @ ys) \<Longrightarrow> single_spaced xs"
proof (induction xs rule: single_spaced.induct)
  case 1
  show ?case by simp
next
  case (2 c)
  then show ?case by (cases ys) auto
next
  case (3 c d cs)
  then show ?case by simp
qed

lemma rstrip_prefix: "rev (dropWhile P (rev xs)) @ rev (takeWhile P (rev xs)) = xs"
proof -
  have "rev (takeWhile P (rev xs) @ dropWhile P (rev xs)) = xs" by simp
  then show ?thesis by (simp only: rev_append)
qed

lemma single_spaced_strip: "single_spaced s \<Longrightarrow> single_spaced (strip s)"
proof -
  assume "single_spaced s"
  then have "single_spaced (dropWhile isspace s)" by (rule single_spaced_dropWhile)
  then have "single_spaced (rev (dropWhile isspace (rev (dropWhile isspace s)))
      @ rev (takeWhile isspace (rev (dropWhile isspace s))))"
    by (simp only: rstrip_prefix)
  then show ?thesis unfolding strip_def by (rule single_spaced_prefix)
qed

lemma strip_ends:
  assumes "strip s \<noteq> []"
  shows "\<not> isspace (hd (strip s))" and "\<not> isspace (last (strip s))"
proof -
  let ?d = "dropWhile isspace s"
  let ?r = "dropWhile isspace (rev ?d)"
  from assms have r: "?r \<noteq> []" by (simp add: strip_def)
  then have "\<not> isspace (hd ?r)" by (rule hd_dropWhile)
  with r show "\<not> isspace (last (strip s))" by (simp add: strip_def last_rev)
  have d: "?d \<noteq> []"
  proof
    assume "?d = []"
    then have "?r = []" by (simp del: dropWhile_eq_Nil_conv)
    with r show False by simp
  qed
  then have hd: "\<not> isspace (hd ?d)" by (rule hd_dropWhile)
  have "strip s @ rev (takeWhile isspace (rev ?d)) = ?d"
    unfolding strip_def by (rule rstrip_prefix)
  with assms have "hd (strip s) = hd ?d" by (metis hd_append2)
  with hd show "\<not> isspace (hd (strip s))" by simp
qed

lemma strip_fixed:
  assumes "s = [] \<or> (\<not> isspace (hd s) \<and> \<not> isspace (last s))"
  shows "strip s = s"
proof (cases "s = []")
  case True
  then show ?thesis by (simp add: strip_def)
next
  case False
  with assms have h: "\<not> isspace (hd s)" and l: "\<not> isspace (last s)" by auto
  from False h have 1: "dropWhile isspace s = s" by (simp add: dropWhile_eq_self_iff)
  from False l have "dropWhile isspace (rev s) = rev s"
    by (simp add: dropWhile_eq_self_iff hd_rev)
  with 1 show ?thesis by (simp add: strip_def)
qed

lemma strip_strip: "strip (strip s) = strip s"
  by (rule strip_fixed) (use strip_ends[of s] in blast)

lemma single_spaced_normalize: "single_spaced (normalize_text s)"
  unfolding normalize_text_def by (rule single_spaced_strip) (rule single_spaced_re_sub_ws)

lemma normalize_text_fixed: "normalize_text (normalize_text s) = normalize_text s"
proof -
  have "re_sub_ws (normalize_text s) = normalize_text s"
    by (rule re_sub_ws_fixed) (rule single_spaced_normalize)
  then have "normalize_text (normalize_text s) = strip (normalize_text s)"
    by (simp add: normalize_text_def)
  also have "\<dots> = normalize_text s"
    unfolding normalize_text_def by (rule strip_strip)
  finally show ?thesis .
qed

lemma single_spaced_nth:
  "single_spaced s \<Longrightarrow> i < length s \<Longrightarrow> isspace (s ! i) \<Longrightarrow>
     s ! i = 32 \<and> (Suc i < length s \<longrightarrow> \<not> isspace (s ! Suc i))"
proof (induction s arbitrary: i rule: single_spaced.induct)
  case 1
  then show ?case by simp
next
  case (2 c)
  then show ?case by simp
next
  case (3 c d cs)
  show ?case
  proof (cases i)
    case 0
    with 3 show ?thesis by simp
  next
    case (Suc j)
    with 3 show ?thesis by simp
  qed
qed

text \<open>
  Claim C9. For every string \<open>s\<close>, normalising \<open>s\<close> twice gives the same result as
  normalising it once.
\<close>

theorem normalize_text_idempotent:
  "normalize_text (normalize_text s) = normalize_text s"
  by (rule normalize_text_fixed)

section \<open>Properties of the handlers\<close>

lemma lower_Nil: "lower uc [] = []"
  by (simp add: lower_def)

lemma lower_id_nonempty: "lower uc name = ustr ''id'' \<Longrightarrow> name \<noteq> []"
  by (auto simp: lower_Nil ustr_def)

lemma attr_step_stack: "stack (attr_step uc tag svg st a) = stack st"
  by (cases a) (auto simp: Let_def split: option.splits)

lemma attr_step_text_nodes: "text_nodes (attr_step uc tag svg st a) = text_nodes st"
  by (cases a) (auto simp: Let_def split: option.splits)

lemma attr_step_ids:
  "ids (attr_step uc tag svg st a) =
     ids st \<union> {v. \<exists>n. a = (n, Some v) \<and> n \<noteq> [] \<and> lower uc n = ustr ''id'' \<and> v \<noteq> [] \<and> \<not> svg}"
  by (cases a) (auto simp: Let_def split: option.splits)


lemma foldl_attr_step_stack: "stack (foldl (attr_step uc tag svg) st attrs) = stack st"
  by (induction attrs arbitrary: st) (simp_all add: attr_step_stack del: attr_step.simps)

lemma foldl_attr_step_text_nodes: "text_nodes (foldl (attr_step uc tag svg) st attrs) = text_nodes st"
  by (induction attrs arbitrary: st) (simp_all add: attr_step_text_nodes del: attr_step.simps)

lemma foldl_attr_step_ids:
  "ids (foldl (attr_step uc tag svg) st attrs) =
     ids st \<union> {v. \<exists>n. (n, Some v) \<in> set attrs \<and> n \<noteq> [] \<and> lower uc n = ustr ''id'' \<and> v \<noteq> [] \<and> \<not> svg}"
proof (induction attrs arbitrary: st)
  case Nil
  show ?case by simp
next
  case (Cons a attrs)
  show ?case
    by (simp only: foldl_Cons Cons.IH attr_step_ids) auto
qed


lemma handle_starttag_stack:
  "stack (handle_starttag uc st tag attrs) = stack st @ [lower uc tag]"
  by (simp add: handle_starttag_def Let_def foldl_attr_step_stack)

lemma handle_starttag_text_nodes:
  "text_nodes (handle_starttag uc st tag attrs) = text_nodes st"
  by (simp add: handle_starttag_def Let_def foldl_attr_step_text_nodes)

lemma handle_starttag_ids_eq:
  "ids (handle_starttag uc st tag attrs) =
     ids st \<union> {v. \<exists>n. (n, Some v) \<in> set attrs \<and> n \<noteq> [] \<and> lower uc n = ustr ''id'' \<and> v \<noteq> []
                    \<and> ustr ''svg'' \<notin> set (stack st @ [lower uc tag])}"
  by (simp add: handle_starttag_def Let_def foldl_attr_step_ids)


lemma endtag_loop_absent:
  "n \<le> length stk \<Longrightarrow> tag \<notin> set (take n stk) \<Longrightarrow> endtag_loop stk tag n = Inr stk"
proof (induction n)
  case 0
  show ?case by simp
next
  case (Suc n)
  then have n: "n < length stk" by simp
  then have t: "take (Suc n) stk = take n stk @ [stk ! n]" by (rule take_Suc_conv_app_nth)
  with Suc.prems have "stk ! n \<noteq> tag" "tag \<notin> set (take n stk)" by auto
  with Suc.IH n show ?case by (simp add: getitem_def)
qed

lemma endtag_loop_present:
  "n \<le> length stk \<Longrightarrow> tag \<in> set (take n stk) \<Longrightarrow>
     \<exists>pre post. take n stk = pre @ tag # post \<and> tag \<notin> set post \<and> endtag_loop stk tag n = Inr pre"
proof (induction n)
  case 0
  then show ?case by simp
next
  case (Suc n)
  then have n: "n < length stk" by simp
  then have t: "take (Suc n) stk = take n stk @ [stk ! n]" by (rule take_Suc_conv_app_nth)
  show ?case
  proof (cases "stk ! n = tag")
    case True
    with n t have "take (Suc n) stk = take n stk @ tag # [] \<and> tag \<notin> set []
        \<and> endtag_loop stk tag (Suc n) = Inr (take n stk)"
      by (simp add: getitem_def)
    then show ?thesis by blast
  next
    case False
    with Suc.prems t have "tag \<in> set (take n stk)" by auto
    with Suc.IH n obtain pre post where
      pp: "take n stk = pre @ tag # post" "tag \<notin> set post" "endtag_loop stk tag n = Inr pre"
      by auto
    with False n t have "take (Suc n) stk = pre @ tag # (post @ [stk ! n])
        \<and> tag \<notin> set (post @ [stk ! n]) \<and> endtag_loop stk tag (Suc n) = Inr pre"
      by (simp add: getitem_def)
    then show ?thesis by blast
  qed
qed

lemma handle_endtag_absent:
  "lower uc tag \<notin> set (stack st) \<Longrightarrow> handle_endtag uc st tag = Inr st"
  by (simp add: handle_endtag_def Let_def endtag_loop_absent)

lemma handle_endtag_present:
  assumes "lower uc tag \<in> set (stack st)"
  shows "\<exists>pre post. stack st = pre @ lower uc tag # post \<and> lower uc tag \<notin> set post
           \<and> handle_endtag uc st tag = Inr (st\<lparr>stack := pre\<rparr>)"
proof -
  from assms have "lower uc tag \<in> set (take (length (stack st)) (stack st))" by simp
  with endtag_loop_present[of "length (stack st)" "stack st" "lower uc tag"]
  obtain pre post where "stack st = pre @ lower uc tag # post" "lower uc tag \<notin> set post"
    "endtag_loop (stack st) (lower uc tag) (length (stack st)) = Inr pre"
    by auto
  then show ?thesis by (auto simp: handle_endtag_def Let_def)
qed

lemma handle_endtag_total:
  "\<exists>stk. handle_endtag uc st tag = Inr (st\<lparr>stack := stk\<rparr>)"
proof (cases "lower uc tag \<in> set (stack st)")
  case True
  from handle_endtag_present[OF this] show ?thesis by blast
next
  case False
  then have "handle_endtag uc st tag = Inr (st\<lparr>stack := stack st\<rparr>)"
    by (simp add: handle_endtag_absent)
  then show ?thesis ..
qed

lemma dispatch_total: "\<exists>st'. dispatch uc st e = Inr st'"
  using handle_endtag_total[of uc st] by (cases e) auto

lemma feed_total: "\<exists>st'. feed uc st es = Inr st'"
proof (induction es arbitrary: st)
  case Nil
  show ?case by simp
next
  case (Cons e es)
  from dispatch_total obtain st1 where "dispatch uc st e = Inr st1" by blast
  with Cons[of st1] show ?case by simp
qed

lemma feed_append:
  "feed uc st (xs @ ys) = (case feed uc st xs of Inl e \<Rightarrow> Inl e | Inr st' \<Rightarrow> feed uc st' ys)"
  by (induction xs arbitrary: st) (auto split: sum.splits)

lemma dispatch_ids_mono: "dispatch uc st e = Inr st' \<Longrightarrow> ids st \<subseteq> ids st'"
proof (cases e)
  case (StartTag tag attrs)
  assume "dispatch uc st e = Inr st'"
  with StartTag show ?thesis by (auto simp: handle_starttag_ids_eq)
next
  case (EndTag tag)
  assume "dispatch uc st e = Inr st'"
  with EndTag handle_endtag_total[of uc st tag] show ?thesis by auto
next
  case (Text d)
  assume "dispatch uc st e = Inr st'"
  with Text show ?thesis by (auto simp: handle_data_def Let_def)
qed

lemma feed_ids_mono: "feed uc st es = Inr st' \<Longrightarrow> ids st \<subseteq> ids st'"
proof (induction es arbitrary: st)
  case Nil
  then show ?case by simp
next
  case (Cons e es)
  from dispatch_total obtain st1 where d: "dispatch uc st e = Inr st1" by blast
  with Cons.prems have "feed uc st1 es = Inr st'" by simp
  with Cons.IH have "ids st1 \<subseteq> ids st'" .
  with dispatch_ids_mono[OF d] show ?case by blast
qed

lemma normalize_fixed_shape:
  assumes "text_node_inv t"
  shows "\<not> isspace (hd t)" and "\<not> isspace (last t)" and "single_spaced t"
proof -
  from assms have ne: "t \<noteq> []" and fx: "normalize_text t = t" by (simp_all add: text_node_inv_def)
  from fx have s: "strip (re_sub_ws t) = t" by (simp add: normalize_text_def)
  with ne have "strip (re_sub_ws t) \<noteq> []" by simp
  from strip_ends[OF this] s show "\<not> isspace (hd t)" and "\<not> isspace (last t)" by simp_all
  from single_spaced_normalize[of t] fx show "single_spaced t" by simp
qed

lemma handle_data_inv:
  assumes "list_all text_node_inv (text_nodes st)"
  shows "list_all text_node_inv (text_nodes (handle_data st d))"
  using assms by (simp add: handle_data_def Let_def text_node_inv_def normalize_text_fixed)

lemma dispatch_inv:
  assumes "list_all text_node_inv (text_nodes st)" and "dispatch uc st e = Inr st'"
  shows "list_all text_node_inv (text_nodes st')"
proof (cases e)
  case (StartTag tag attrs)
  with assms show ?thesis by (auto simp: handle_starttag_text_nodes)
next
  case (EndTag tag)
  with assms handle_endtag_total[of uc st tag] show ?thesis by auto
next
  case (Text d)
  with assms handle_data_inv[of st d] show ?thesis by auto
qed

lemma feed_inv:
  "list_all text_node_inv (text_nodes st) \<Longrightarrow> feed uc st es = Inr st' \<Longrightarrow>
     list_all text_node_inv (text_nodes st')"
proof (induction es arbitrary: st)
  case Nil
  then show ?case by simp
next
  case (Cons e es)
  from dispatch_total obtain st1 where d: "dispatch uc st e = Inr st1" by blast
  with Cons.prems have "feed uc st1 es = Inr st'" by simp
  with Cons.IH dispatch_inv[OF Cons.prems(1) d] show ?case by blast
qed

section \<open>Properties of the comparison\<close>

lemma counter_get_incr:
  "counter_get (counter_incr c k) k' = counter_get c k' + (if k = k' then 1 else 0)"
  by (induction c k rule: counter_incr.induct) (auto simp: counter_get_def)

lemma keys_counter_incr: "set (map fst (counter_incr c k)) = insert k (set (map fst c))"
  by (induction c k rule: counter_incr.induct) auto

lemma counter_get_foldl:
  "counter_get (foldl counter_incr c xs) k = counter_get c k + int (count_list xs k)"
  by (induction xs arbitrary: c) (auto simp: counter_get_incr)

lemma keys_foldl: "set (map fst (foldl counter_incr c xs)) = set (map fst c) \<union> set xs"
  by (induction xs arbitrary: c) (auto simp: keys_counter_incr simp del: set_map)

lemma counter_get_Counter: "counter_get (Counter xs) k = int (count_list xs k)"
proof -
  have "counter_get [] k = 0" by (simp add: counter_get_def)
  then show ?thesis by (simp only: Counter_def counter_get_foldl)
qed

lemma keys_Counter: "set (map fst (Counter xs)) = set xs"
  by (simp add: Counter_def keys_foldl del: set_map)

lemma counter_eq_mset: "counter_eq (Counter xs) (Counter ys) \<longleftrightarrow> mset xs = mset ys"
proof
  assume "counter_eq (Counter xs) (Counter ys)"
  then have eq: "\<forall>k \<in> set xs \<union> set ys. count_list xs k = count_list ys k"
    using keys_Counter[of xs] keys_Counter[of ys]
    by (simp add: counter_eq_def list_all_iff counter_get_Counter del: set_map)
  show "mset xs = mset ys"
  proof (rule multiset_eqI)
    fix k
    show "count (mset xs) k = count (mset ys) k"
    proof (cases "k \<in> set xs \<union> set ys")
      case True
      with eq show ?thesis by (simp add: count_mset)
    next
      case False
      then show ?thesis by (simp add: count_mset)
    qed
  qed
next
  assume "mset xs = mset ys"
  then have "\<And>k. count_list xs k = count_list ys k" by (metis count_mset)
  then show "counter_eq (Counter xs) (Counter ys)"
    by (simp add: counter_eq_def list_all_iff counter_get_Counter)
qed

lemma check_text_fst:
  "fst (check_text u b v (ok, out)) = (ok \<and> text_pass u b v)"
  by (simp add: check_text_def text_pass_def Let_def counter_eq_mset)

lemma check_text_snd:
  "\<exists>extra. snd (check_text u b v (ok, out)) = out @ extra
     \<and> (text_pass u b v \<longrightarrow> extra = [])
     \<and> ID_set_mismatch \<notin> set extra \<and> Anchor_href_set_mismatch \<notin> set extra
     \<and> (Text_nodes_mismatch \<in> set extra \<longleftrightarrow> \<not> u \<and> \<not> text_pass u b v)
     \<and> (Text_nodes_mismatch_unordered \<in> set extra \<longleftrightarrow> u \<and> \<not> text_pass u b v)"
  by (auto simp: check_text_def text_pass_def Let_def counter_eq_mset)

lemma check_ids_fst: "fst (check_ids b v (ok, out)) = (ok \<and> ids b = ids v)"
  by (simp add: check_ids_def Let_def)

lemma check_ids_snd:
  "\<exists>extra. snd (check_ids b v (ok, out)) = out @ extra
     \<and> (ids b = ids v \<longrightarrow> extra = [])
     \<and> (ID_set_mismatch \<in> set extra \<longleftrightarrow> ids b \<noteq> ids v)
     \<and> Anchor_href_set_mismatch \<notin> set extra
     \<and> Text_nodes_mismatch \<notin> set extra \<and> Text_nodes_mismatch_unordered \<notin> set extra"
  by (auto simp: check_ids_def Let_def)

lemma check_hrefs_fst: "fst (check_hrefs b v (ok, out)) = (ok \<and> anchor_hrefs b = anchor_hrefs v)"
  by (simp add: check_hrefs_def Let_def)

lemma check_hrefs_snd:
  "\<exists>extra. snd (check_hrefs b v (ok, out)) = out @ extra
     \<and> (anchor_hrefs b = anchor_hrefs v \<longrightarrow> extra = [])
     \<and> (Anchor_href_set_mismatch \<in> set extra \<longleftrightarrow> anchor_hrefs b \<noteq> anchor_hrefs v)
     \<and> ID_set_mismatch \<notin> set extra
     \<and> Text_nodes_mismatch \<notin> set extra \<and> Text_nodes_mismatch_unordered \<notin> set extra"
  by (auto simp: check_hrefs_def Let_def)

lemma run_checks_props:
  "fst (run_checks u b v) = (text_pass u b v \<and> ids b = ids v \<and> anchor_hrefs b = anchor_hrefs v)"
  "(Text_nodes_mismatch \<in> set (snd (run_checks u b v))) = (\<not> u \<and> \<not> text_pass u b v)"
  "(Text_nodes_mismatch_unordered \<in> set (snd (run_checks u b v))) = (u \<and> \<not> text_pass u b v)"
  "(ID_set_mismatch \<in> set (snd (run_checks u b v))) = (ids b \<noteq> ids v)"
  "(Anchor_href_set_mismatch \<in> set (snd (run_checks u b v))) = (anchor_hrefs b \<noteq> anchor_hrefs v)"
  "text_pass u b v \<and> ids b = ids v \<and> anchor_hrefs b = anchor_hrefs v \<Longrightarrow> snd (run_checks u b v) = []"
proof -
  obtain ok1 out1 where c1: "check_text u b v (True, []) = (ok1, out1)" by (cases "check_text u b v (True, [])")
  obtain ok2 out2 where c2: "check_ids b v (ok1, out1) = (ok2, out2)" by (cases "check_ids b v (ok1, out1)")
  obtain ok3 out3 where c3: "check_hrefs b v (ok2, out2) = (ok3, out3)" by (cases "check_hrefs b v (ok2, out2)")
  have r: "run_checks u b v = (ok3, out3)" by (simp add: run_checks_def c1 c2 c3)
  from check_text_fst[of u b v True "[]"] c1 have ok1: "ok1 = text_pass u b v" by simp
  from check_ids_fst[of b v ok1 out1] c2 have ok2: "ok2 = (ok1 \<and> ids b = ids v)" by simp
  from check_hrefs_fst[of b v ok2 out2] c3 have ok3: "ok3 = (ok2 \<and> anchor_hrefs b = anchor_hrefs v)" by simp
  from check_text_snd[of u b v True "[]"] c1 obtain e1 where e1: "out1 = e1"
     "text_pass u b v \<longrightarrow> e1 = []"
     "ID_set_mismatch \<notin> set e1" "Anchor_href_set_mismatch \<notin> set e1"
     "Text_nodes_mismatch \<in> set e1 \<longleftrightarrow> \<not> u \<and> \<not> text_pass u b v"
     "Text_nodes_mismatch_unordered \<in> set e1 \<longleftrightarrow> u \<and> \<not> text_pass u b v"
    by auto
  from check_ids_snd[of b v ok1 out1] c2 obtain e2 where e2: "out2 = out1 @ e2"
     "ids b = ids v \<longrightarrow> e2 = []"
     "ID_set_mismatch \<in> set e2 \<longleftrightarrow> ids b \<noteq> ids v"
     "Anchor_href_set_mismatch \<notin> set e2"
     "Text_nodes_mismatch \<notin> set e2" "Text_nodes_mismatch_unordered \<notin> set e2"
    by auto
  from check_hrefs_snd[of b v ok2 out2] c3 obtain e3 where e3: "out3 = out2 @ e3"
     "anchor_hrefs b = anchor_hrefs v \<longrightarrow> e3 = []"
     "Anchor_href_set_mismatch \<in> set e3 \<longleftrightarrow> anchor_hrefs b \<noteq> anchor_hrefs v"
     "ID_set_mismatch \<notin> set e3"
     "Text_nodes_mismatch \<notin> set e3" "Text_nodes_mismatch_unordered \<notin> set e3"
    by auto
  show "fst (run_checks u b v) = (text_pass u b v \<and> ids b = ids v \<and> anchor_hrefs b = anchor_hrefs v)"
    by (simp add: r ok1 ok2 ok3)
  show "(Text_nodes_mismatch \<in> set (snd (run_checks u b v))) = (\<not> u \<and> \<not> text_pass u b v)"
    using e1 e2 e3 by (simp add: r)
  show "(Text_nodes_mismatch_unordered \<in> set (snd (run_checks u b v))) = (u \<and> \<not> text_pass u b v)"
    using e1 e2 e3 by (simp add: r)
  show "(ID_set_mismatch \<in> set (snd (run_checks u b v))) = (ids b \<noteq> ids v)"
    using e1 e2 e3 by (simp add: r)
  show "(Anchor_href_set_mismatch \<in> set (snd (run_checks u b v))) = (anchor_hrefs b \<noteq> anchor_hrefs v)"
    using e1 e2 e3 by (simp add: r)
  show "text_pass u b v \<and> ids b = ids v \<and> anchor_hrefs b = anchor_hrefs v \<Longrightarrow> snd (run_checks u b v) = []"
    using e1 e2 e3 by (simp add: r)
qed

lemma main_readable:
  assumes "fs base = Some (Text_file sb)" and "fs variant = Some (Text_file sv)"
    and "scan sb = (eb, None)" and "scan sv = (ev, None)"
    and "feed uc init eb = Inr b" and "feed uc init ev = Inr v"
  shows "main uc scan fs base variant u =
     ([Path_exists base, Path_exists variant, Read_text base, Parse sb, Read_text variant, Parse sv]
        @ map (Print Stderr) (snd (run_checks u b v))
        @ (if fst (run_checks u b v) then [Print Stdout OK] else []),
      Returned (if fst (run_checks u b v) then 0 else 1))"
  using assms by (simp add: main_def extract_file_def split: prod.splits)

lemma extract_file_trace:
  "\<forall>a \<in> set (fst (extract_file uc scan fs p)). \<forall>q. a \<noteq> Path_exists q"
  by (auto simp: extract_file_def split: option.splits fs_entry.splits prod.splits)

lemma main_both_exist:
  assumes "fs base \<noteq> None" and "fs variant \<noteq> None"
    and "fs base \<noteq> Some Stat_raises" and "fs variant \<noteq> Some Stat_raises"
  shows "\<exists>rest. fst (main uc scan fs base variant u) = Path_exists base # Path_exists variant # rest
           \<and> (\<forall>a \<in> set rest. \<forall>q. a \<noteq> Path_exists q)"
proof -
  obtain t1 r1 where e1: "extract_file uc scan fs base = (t1, r1)"
    by (cases "extract_file uc scan fs base")
  obtain t2 r2 where e2: "extract_file uc scan fs variant = (t2, r2)"
    by (cases "extract_file uc scan fs variant")
  from extract_file_trace[of uc scan fs base] e1
  have n1: "\<forall>a \<in> set t1. \<forall>q. a \<noteq> Path_exists q" by simp
  from extract_file_trace[of uc scan fs variant] e2
  have n2: "\<forall>a \<in> set t2. \<forall>q. a \<noteq> Path_exists q" by simp
  show ?thesis
  proof (cases r1)
    case (Inl e)
    with assms e1 n1 show ?thesis by (simp add: main_def)
  next
    case b: (Inr base_ex)
    show ?thesis
    proof (cases r2)
      case (Inl e)
      with assms e1 e2 b n1 n2 show ?thesis by (auto simp: main_def)
    next
      case v: (Inr var_ex)
      obtain ok out where rc: "run_checks u base_ex var_ex = (ok, out)"
        by (cases "run_checks u base_ex var_ex")
      with assms e1 e2 b v n1 n2 show ?thesis by (auto simp: main_def)
    qed
  qed
qed

section \<open>The claims about the extractor\<close>

text \<open>
  Claim C1. Text that arrives while a tag of the excluded-context set (\<open>script\<close>,
  \<open>style\<close>, \<open>svg\<close>, \<open>defs\<close>) is anywhere on the nesting stack is discarded: the handler
  leaves the extractor as it was, so nothing is appended to \<open>text_nodes\<close>, and feeding
  the text event after any events that led to such a state changes nothing.
\<close>

theorem excluded_text_discarded:
  "t \<in> set (stack st) \<and> t \<in> {ustr ''script'', ustr ''style'', ustr ''svg'', ustr ''defs''} \<longrightarrow>
     handle_data st chunk = st
     \<and> (feed uc st0 evs = Inr st \<longrightarrow> feed uc st0 (evs @ [Text chunk]) = Inr st)"
proof
  assume a: "t \<in> set (stack st) \<and> t \<in> {ustr ''script'', ustr ''style'', ustr ''svg'', ustr ''defs''}"
  then have "in_excluded_text_context st"
    unfolding in_excluded_text_context_def EXCLUDED_TEXT_TAGS_def list_ex_iff by blast
  then have h: "handle_data st chunk = st" by (simp add: handle_data_def)
  then show "handle_data st chunk = st
     \<and> (feed uc st0 evs = Inr st \<longrightarrow> feed uc st0 (evs @ [Text chunk]) = Inr st)"
    by (simp add: feed_append)
qed

theorem excluded_text_discarded_witness:
  "feed id init [StartTag (ustr ''SVG'') [], StartTag (ustr ''text'') [], Text (ustr ''Label'')]
     = Inr \<lparr>stack = [ustr ''svg'', ustr ''text''], text_nodes = [], ids = {}, anchor_hrefs = {}\<rparr>"
proof -
  let ?st = "\<lparr>stack = [ustr ''svg'', ustr ''text''], text_nodes = [], ids = {}, anchor_hrefs = {}\<rparr>"
  have s: "ustr ''svg'' \<in> set (stack ?st)
      \<and> ustr ''svg'' \<in> {ustr ''script'', ustr ''style'', ustr ''svg'', ustr ''defs''}"
    by simp
  have f: "feed id init [StartTag (ustr ''SVG'') [], StartTag (ustr ''text'') []] = Inr ?st"
    by (simp add: init_def handle_starttag_def lower_def ascii_lower_def ustr_def)
  from excluded_text_discarded[of "ustr ''svg''" ?st "ustr ''Label''" id init
      "[StartTag (ustr ''SVG'') [], StartTag (ustr ''text'') []]"] s f
  show ?thesis by simp
qed

text \<open>
  Claim C2. Handling a start tag pushes the lower-cased tag. When the stack then holds
  \<open>svg\<close> (the element is \<open>svg\<close> or is nested in one), no \<open>id\<close> of the element is added
  to \<open>ids\<close>. When it does not, an \<open>id\<close> attribute with a present, non-empty value is in
  \<open>ids\<close> afterwards, and stays there for the rest of the document.
\<close>

theorem svg_scoped_ids:
  "stack (handle_starttag uc st tag attrs) = stack st @ [lower uc tag]
   \<and> (ustr ''svg'' \<in> set (stack st @ [lower uc tag]) \<longrightarrow>
        ids (handle_starttag uc st tag attrs) = ids st)
   \<and> (ustr ''svg'' \<notin> set (stack st @ [lower uc tag]) \<and> (name, Some v) \<in> set attrs
        \<and> lower uc name = ustr ''id'' \<and> v \<noteq> [] \<longrightarrow>
        v \<in> ids (handle_starttag uc st tag attrs)
        \<and> (feed uc (handle_starttag uc st tag attrs) evs = Inr st' \<longrightarrow> v \<in> ids st'))"
proof (intro conjI impI)
  show "stack (handle_starttag uc st tag attrs) = stack st @ [lower uc tag]"
    by (rule handle_starttag_stack)
next
  assume "ustr ''svg'' \<in> set (stack st @ [lower uc tag])"
  then show "ids (handle_starttag uc st tag attrs) = ids st"
    by (simp only: handle_starttag_ids_eq) blast
next
  assume a: "ustr ''svg'' \<notin> set (stack st @ [lower uc tag]) \<and> (name, Some v) \<in> set attrs
        \<and> lower uc name = ustr ''id'' \<and> v \<noteq> []"
  then have "name \<noteq> []" by (blast dest: lower_id_nonempty)
  with a show v: "v \<in> ids (handle_starttag uc st tag attrs)"
    by (simp only: handle_starttag_ids_eq) blast
  assume "feed uc (handle_starttag uc st tag attrs) evs = Inr st'"
  from feed_ids_mono[OF this] v show "v \<in> ids st'" by blast
qed

theorem svg_scoped_ids_witness:
  "ustr ''svg'' \<in> set (stack init @ [lower id (ustr ''SVG'')])
   \<and> ids (handle_starttag id init (ustr ''SVG'') [(ustr ''id'', Some (ustr ''g''))]) = {}
   \<and> ustr ''svg'' \<notin> set (stack init @ [lower id (ustr ''DIV'')])
   \<and> (ustr ''ID'', Some (ustr ''x'')) \<in> set [(ustr ''ID'', Some (ustr ''x''))]
   \<and> lower id (ustr ''ID'') = ustr ''id'' \<and> ustr ''x'' \<noteq> []
   \<and> ustr ''x'' \<in> ids (handle_starttag id init (ustr ''DIV'') [(ustr ''ID'', Some (ustr ''x''))])"
proof -
  have h1: "ustr ''svg'' \<in> set (stack init @ [lower id (ustr ''SVG'')])"
    by (simp add: lower_def ascii_lower_def ustr_def)
  have h2: "ustr ''svg'' \<notin> set (stack init @ [lower id (ustr ''DIV'')])
      \<and> (ustr ''ID'', Some (ustr ''x'')) \<in> set [(ustr ''ID'', Some (ustr ''x''))]
      \<and> lower id (ustr ''ID'') = ustr ''id'' \<and> ustr ''x'' \<noteq> []"
    by (simp add: lower_def ascii_lower_def ustr_def init_def)
  from svg_scoped_ids[of id init "ustr ''SVG''" "[(ustr ''id'', Some (ustr ''g''))]"] h1
  have c1: "ids (handle_starttag id init (ustr ''SVG'') [(ustr ''id'', Some (ustr ''g''))]) = {}"
    by (simp add: init_def)
  from svg_scoped_ids[of id init "ustr ''DIV''" "[(ustr ''ID'', Some (ustr ''x''))]"
      "ustr ''ID''" "ustr ''x''"] h2
  have c2: "ustr ''x'' \<in> ids (handle_starttag id init (ustr ''DIV'') [(ustr ''ID'', Some (ustr ''x''))])"
    by blast
  from h1 h2 c1 c2 show ?thesis by blast
qed



text \<open>
  Claim C8. Handling an end tag lower-cases its name. When no open tag of that name is on
  the stack, the extractor is left as it was. Otherwise the stack is cut just below the
  nearest such tag, counted from the top: that tag and everything opened after it are
  popped, and nothing else changes. No error is raised in either case.
\<close>

theorem handle_endtag_pops:
  "(lower uc tag \<notin> set (stack st) \<longrightarrow> handle_endtag uc st tag = Inr st)
   \<and> (lower uc tag \<in> set (stack st) \<longrightarrow>
        (\<exists>pre post. stack st = pre @ lower uc tag # post \<and> lower uc tag \<notin> set post
           \<and> handle_endtag uc st tag = Inr (st\<lparr>stack := pre\<rparr>)))
   \<and> (\<exists>st'. handle_endtag uc st tag = Inr st')"
proof (intro conjI impI)
  assume "lower uc tag \<notin> set (stack st)"
  then show "handle_endtag uc st tag = Inr st" by (rule handle_endtag_absent)
next
  assume "lower uc tag \<in> set (stack st)"
  then show "\<exists>pre post. stack st = pre @ lower uc tag # post \<and> lower uc tag \<notin> set post
           \<and> handle_endtag uc st tag = Inr (st\<lparr>stack := pre\<rparr>)"
    by (rule handle_endtag_present)
next
  from handle_endtag_total[of uc st tag] show "\<exists>st'. handle_endtag uc st tag = Inr st'"
    by blast
qed

theorem handle_endtag_pops_witness:
  "lower id (ustr ''TABLE'') \<notin> set (stack \<lparr>stack = [ustr ''div'', ustr ''p'', ustr ''b'', ustr ''p'', ustr ''i''],
        text_nodes = [], ids = {}, anchor_hrefs = {}\<rparr>)
   \<and> handle_endtag id \<lparr>stack = [ustr ''div'', ustr ''p'', ustr ''b'', ustr ''p'', ustr ''i''],
        text_nodes = [], ids = {}, anchor_hrefs = {}\<rparr> (ustr ''TABLE'')
      = Inr \<lparr>stack = [ustr ''div'', ustr ''p'', ustr ''b'', ustr ''p'', ustr ''i''],
        text_nodes = [], ids = {}, anchor_hrefs = {}\<rparr>
   \<and> lower id (ustr ''P'') \<in> set (stack \<lparr>stack = [ustr ''div'', ustr ''p'', ustr ''b'', ustr ''p'', ustr ''i''],
        text_nodes = [], ids = {}, anchor_hrefs = {}\<rparr>)
   \<and> handle_endtag id \<lparr>stack = [ustr ''div'', ustr ''p'', ustr ''b'', ustr ''p'', ustr ''i''],
        text_nodes = [], ids = {}, anchor_hrefs = {}\<rparr> (ustr ''P'')
      = Inr \<lparr>stack = [ustr ''div'', ustr ''p'', ustr ''b''],
        text_nodes = [], ids = {}, anchor_hrefs = {}\<rparr>"
proof -
  let ?st = "\<lparr>stack = [ustr ''div'', ustr ''p'', ustr ''b'', ustr ''p'', ustr ''i''],
        text_nodes = [], ids = {}, anchor_hrefs = {}\<rparr>"
  have h1: "lower id (ustr ''TABLE'') \<notin> set (stack ?st)"
    by (simp add: lower_def ascii_lower_def ustr_def)
  have h2: "lower id (ustr ''P'') \<in> set (stack ?st)"
    by (simp add: lower_def ascii_lower_def ustr_def)
  from handle_endtag_pops[of id "ustr ''TABLE''" ?st] h1
  have c1: "handle_endtag id ?st (ustr ''TABLE'') = Inr ?st" by blast
  from handle_endtag_pops[of id "ustr ''P''" ?st] h2
  obtain pre post where pp: "stack ?st = pre @ lower id (ustr ''P'') # post"
      "lower id (ustr ''P'') \<notin> set post"
      "handle_endtag id ?st (ustr ''P'') = Inr (?st\<lparr>stack := pre\<rparr>)"
    by blast
  have c2: "handle_endtag id ?st (ustr ''P'')
      = Inr \<lparr>stack = [ustr ''div'', ustr ''p'', ustr ''b''], text_nodes = [], ids = {}, anchor_hrefs = {}\<rparr>"
    by (simp add: handle_endtag_def getitem_def lower_def ascii_lower_def ustr_def)
  from h1 h2 c1 c2 show ?thesis by blast
qed

text \<open>
  Claim C10. Every event handler preserves the invariant that each text node is not empty
  and is a fixed point of the normalisation. After any sequence of events, from the
  initial extractor, the run has ended without an error and every text node is not empty,
  is a fixed point of the normalisation, has no whitespace at either end, and each
  whitespace character in it is a single space followed by a character that is not
  whitespace.
\<close>

theorem text_nodes_normalized:
  "(list_all text_node_inv (text_nodes st) \<and> dispatch uc st e = Inr st' \<longrightarrow>
      list_all text_node_inv (text_nodes st'))
   \<and> (\<exists>fin. feed uc init evs = Inr fin
        \<and> (\<forall>t \<in> set (text_nodes fin).
              t \<noteq> [] \<and> normalize_text t = t \<and> \<not> isspace (hd t) \<and> \<not> isspace (last t)
              \<and> (\<forall>i. i < length t \<and> isspace (t ! i) \<longrightarrow>
                    t ! i = 32 \<and> (Suc i < length t \<longrightarrow> \<not> isspace (t ! Suc i)))))"
proof (intro conjI impI)
  assume "list_all text_node_inv (text_nodes st) \<and> dispatch uc st e = Inr st'"
  then show "list_all text_node_inv (text_nodes st')" by (blast intro: dispatch_inv)
next
  from feed_total obtain fin where f: "feed uc init evs = Inr fin" by blast
  have "list_all text_node_inv (text_nodes init)" by (simp add: init_def)
  from feed_inv[OF this f] have inv: "\<forall>t \<in> set (text_nodes fin). text_node_inv t"
    by (simp add: list_all_iff)
  have "\<forall>t \<in> set (text_nodes fin).
              t \<noteq> [] \<and> normalize_text t = t \<and> \<not> isspace (hd t) \<and> \<not> isspace (last t)
              \<and> (\<forall>i. i < length t \<and> isspace (t ! i) \<longrightarrow>
                    t ! i = 32 \<and> (Suc i < length t \<longrightarrow> \<not> isspace (t ! Suc i)))"
  proof
    fix t assume "t \<in> set (text_nodes fin)"
    with inv have i: "text_node_inv t" by blast
    then have "t \<noteq> []" "normalize_text t = t" by (simp_all add: text_node_inv_def)
    moreover note normalize_fixed_shape(1,2)[OF i]
    moreover have "\<forall>i. i < length t \<and> isspace (t ! i) \<longrightarrow>
                    t ! i = 32 \<and> (Suc i < length t \<longrightarrow> \<not> isspace (t ! Suc i))"
      using single_spaced_nth[OF normalize_fixed_shape(3)[OF i]] by blast
    ultimately show "t \<noteq> [] \<and> normalize_text t = t \<and> \<not> isspace (hd t) \<and> \<not> isspace (last t)
              \<and> (\<forall>i. i < length t \<and> isspace (t ! i) \<longrightarrow>
                    t ! i = 32 \<and> (Suc i < length t \<longrightarrow> \<not> isspace (t ! Suc i)))"
      by blast
  qed
  with f show "\<exists>fin. feed uc init evs = Inr fin
        \<and> (\<forall>t \<in> set (text_nodes fin).
              t \<noteq> [] \<and> normalize_text t = t \<and> \<not> isspace (hd t) \<and> \<not> isspace (last t)
              \<and> (\<forall>i. i < length t \<and> isspace (t ! i) \<longrightarrow>
                    t ! i = 32 \<and> (Suc i < length t \<longrightarrow> \<not> isspace (t ! Suc i))))"
    by blast
qed

theorem text_nodes_normalized_witness:
  "feed id init [Text (ustr ''  Hello   world ''), Text (ustr ''   '')]
     = Inr \<lparr>stack = [], text_nodes = [ustr ''Hello world''], ids = {}, anchor_hrefs = {}\<rparr>
   \<and> ustr ''Hello world'' \<in> set [ustr ''Hello world'']
   \<and> normalize_text (ustr ''Hello world'') = ustr ''Hello world''
   \<and> \<not> isspace (hd (ustr ''Hello world'')) \<and> \<not> isspace (last (ustr ''Hello world''))"
proof -
  let ?evs = "[Text (ustr ''  Hello   world ''), Text (ustr ''   '')]"
  let ?fin = "\<lparr>stack = [], text_nodes = [ustr ''Hello world''], ids = {}, anchor_hrefs = {}\<rparr>"
  have f: "feed id init ?evs = Inr ?fin"
    by (simp add: init_def handle_data_def in_excluded_text_context_def normalize_text_def
        strip_def isspace_def ustr_def)
  from text_nodes_normalized[of init id "Text []" init ?evs] f
  have "\<forall>t \<in> set (text_nodes ?fin).
          t \<noteq> [] \<and> normalize_text t = t \<and> \<not> isspace (hd t) \<and> \<not> isspace (last t)"
    by auto
  with f show ?thesis by simp
qed

section \<open>The claims about the program\<close>

text \<open>
  Claim C3, as the program has it. When both paths hold readable text and the scanner
  raises on neither text, both documents are extracted without an error and \<open>main\<close>
  returns. Each of the three checks is made whatever the others give: the text mismatch
  is reported exactly when the text check of the chosen mode fails, the id mismatch
  exactly when the id sets differ, the href mismatch exactly when the href sets differ.
  The status is \<open>0\<close> exactly when all three checks pass and \<open>1\<close> exactly when one
  fails, and \<open>OK\<close> is printed on standard output exactly when the status is \<open>0\<close>.
\<close>

theorem all_checks_run:
  "fs base = Some (Text_file sb) \<and> fs variant = Some (Text_file sv)
     \<and> snd (scan sb) = None \<and> snd (scan sv) = None \<longrightarrow>
   (\<exists>b v tr rc. feed uc init (fst (scan sb)) = Inr b \<and> feed uc init (fst (scan sv)) = Inr v
      \<and> main uc scan fs base variant u = (tr, Returned rc)
      \<and> (Print Stderr Text_nodes_mismatch \<in> set tr \<longleftrightarrow> \<not> u \<and> text_nodes b \<noteq> text_nodes v)
      \<and> (Print Stderr Text_nodes_mismatch_unordered \<in> set tr
            \<longleftrightarrow> u \<and> mset (text_nodes b) \<noteq> mset (text_nodes v))
      \<and> (Print Stderr ID_set_mismatch \<in> set tr \<longleftrightarrow> ids b \<noteq> ids v)
      \<and> (Print Stderr Anchor_href_set_mismatch \<in> set tr \<longleftrightarrow> anchor_hrefs b \<noteq> anchor_hrefs v)
      \<and> (rc = 0 \<longleftrightarrow> text_pass u b v \<and> ids b = ids v \<and> anchor_hrefs b = anchor_hrefs v)
      \<and> (rc = 1 \<longleftrightarrow> \<not> (text_pass u b v \<and> ids b = ids v \<and> anchor_hrefs b = anchor_hrefs v))
      \<and> (Print Stdout OK \<in> set tr \<longleftrightarrow> rc = 0))"
proof
  assume a: "fs base = Some (Text_file sb) \<and> fs variant = Some (Text_file sv)
     \<and> snd (scan sb) = None \<and> snd (scan sv) = None"
  from feed_total obtain b where b: "feed uc init (fst (scan sb)) = Inr b" by blast
  from feed_total obtain v where v: "feed uc init (fst (scan sv)) = Inr v" by blast
  from a have sb: "scan sb = (fst (scan sb), None)" by (simp add: prod_eq_iff)
  from a have sv: "scan sv = (fst (scan sv), None)" by (simp add: prod_eq_iff)
  let ?out = "snd (run_checks u b v)"
  let ?ok = "fst (run_checks u b v)"
  let ?tr = "[Path_exists base, Path_exists variant, Read_text base, Parse sb,
      Read_text variant, Parse sv] @ map (Print Stderr) ?out
        @ (if ?ok then [Print Stdout OK] else [])"
  let ?rc = "if ?ok then 0 else 1 :: int"
  from a have fb: "fs base = Some (Text_file sb)" and fv: "fs variant = Some (Text_file sv)"
    by simp_all
  have m: "main uc scan fs base variant u = (?tr, Returned ?rc)"
    by (rule main_readable[OF fb fv sb sv b v])
  have mem: "\<And>x. Print Stderr x \<in> set ?tr \<longleftrightarrow> x \<in> set ?out" by auto
  have t1: "Print Stderr Text_nodes_mismatch \<in> set ?tr \<longleftrightarrow> \<not> u \<and> text_nodes b \<noteq> text_nodes v"
    unfolding mem by (simp add: run_checks_props(2) text_pass_def)
  have t2: "Print Stderr Text_nodes_mismatch_unordered \<in> set ?tr
            \<longleftrightarrow> u \<and> mset (text_nodes b) \<noteq> mset (text_nodes v)"
    unfolding mem by (simp add: run_checks_props(3) text_pass_def)
  have t3: "Print Stderr ID_set_mismatch \<in> set ?tr \<longleftrightarrow> ids b \<noteq> ids v"
    unfolding mem by (simp add: run_checks_props(4))
  have t4: "Print Stderr Anchor_href_set_mismatch \<in> set ?tr \<longleftrightarrow> anchor_hrefs b \<noteq> anchor_hrefs v"
    unfolding mem by (simp add: run_checks_props(5))
  have t5: "?rc = 0 \<longleftrightarrow> text_pass u b v \<and> ids b = ids v \<and> anchor_hrefs b = anchor_hrefs v"
    by (simp add: run_checks_props(1))
  have t6: "?rc = 1 \<longleftrightarrow> \<not> (text_pass u b v \<and> ids b = ids v \<and> anchor_hrefs b = anchor_hrefs v)"
    by (simp add: run_checks_props(1))
  have t7: "Print Stdout OK \<in> set ?tr \<longleftrightarrow> ?rc = 0" by auto
  from b v m t1 t2 t3 t4 t5 t6 t7
  show "\<exists>b v tr rc. feed uc init (fst (scan sb)) = Inr b \<and> feed uc init (fst (scan sv)) = Inr v
      \<and> main uc scan fs base variant u = (tr, Returned rc)
      \<and> (Print Stderr Text_nodes_mismatch \<in> set tr \<longleftrightarrow> \<not> u \<and> text_nodes b \<noteq> text_nodes v)
      \<and> (Print Stderr Text_nodes_mismatch_unordered \<in> set tr
            \<longleftrightarrow> u \<and> mset (text_nodes b) \<noteq> mset (text_nodes v))
      \<and> (Print Stderr ID_set_mismatch \<in> set tr \<longleftrightarrow> ids b \<noteq> ids v)
      \<and> (Print Stderr Anchor_href_set_mismatch \<in> set tr \<longleftrightarrow> anchor_hrefs b \<noteq> anchor_hrefs v)
      \<and> (rc = 0 \<longleftrightarrow> text_pass u b v \<and> ids b = ids v \<and> anchor_hrefs b = anchor_hrefs v)
      \<and> (rc = 1 \<longleftrightarrow> \<not> (text_pass u b v \<and> ids b = ids v \<and> anchor_hrefs b = anchor_hrefs v))
      \<and> (Print Stdout OK \<in> set tr \<longleftrightarrow> rc = 0)"
    by blast
qed

theorem all_checks_run_witness:
  "snd (main id
      (\<lambda>s. if s = ustr ''<div id=a>Hello</div>''
           then ([StartTag (ustr ''div'') [(ustr ''id'', Some (ustr ''a''))],
                  Text (ustr ''Hello''), EndTag (ustr ''div'')], None)
           else ([Text s], None))
      (map_of [(ustr ''b.html'', Text_file (ustr ''<div id=a>Hello</div>'')),
               (ustr ''v.html'', Text_file (ustr ''World''))])
      (ustr ''b.html'') (ustr ''v.html'') False) = Returned 1
   \<and> Print Stderr Text_nodes_mismatch \<in> set (fst (main id
      (\<lambda>s. if s = ustr ''<div id=a>Hello</div>''
           then ([StartTag (ustr ''div'') [(ustr ''id'', Some (ustr ''a''))],
                  Text (ustr ''Hello''), EndTag (ustr ''div'')], None)
           else ([Text s], None))
      (map_of [(ustr ''b.html'', Text_file (ustr ''<div id=a>Hello</div>'')),
               (ustr ''v.html'', Text_file (ustr ''World''))])
      (ustr ''b.html'') (ustr ''v.html'') False))
   \<and> Print Stderr ID_set_mismatch \<in> set (fst (main id
      (\<lambda>s. if s = ustr ''<div id=a>Hello</div>''
           then ([StartTag (ustr ''div'') [(ustr ''id'', Some (ustr ''a''))],
                  Text (ustr ''Hello''), EndTag (ustr ''div'')], None)
           else ([Text s], None))
      (map_of [(ustr ''b.html'', Text_file (ustr ''<div id=a>Hello</div>'')),
               (ustr ''v.html'', Text_file (ustr ''World''))])
      (ustr ''b.html'') (ustr ''v.html'') False))
   \<and> Print Stderr Anchor_href_set_mismatch \<notin> set (fst (main id
      (\<lambda>s. if s = ustr ''<div id=a>Hello</div>''
           then ([StartTag (ustr ''div'') [(ustr ''id'', Some (ustr ''a''))],
                  Text (ustr ''Hello''), EndTag (ustr ''div'')], None)
           else ([Text s], None))
      (map_of [(ustr ''b.html'', Text_file (ustr ''<div id=a>Hello</div>'')),
               (ustr ''v.html'', Text_file (ustr ''World''))])
      (ustr ''b.html'') (ustr ''v.html'') False))"
proof -
  let ?scan = "\<lambda>s. if s = ustr ''<div id=a>Hello</div>''
           then ([StartTag (ustr ''div'') [(ustr ''id'', Some (ustr ''a''))],
                  Text (ustr ''Hello''), EndTag (ustr ''div'')], None :: py_error option)
           else ([Text s], None)"
  let ?fs = "map_of [(ustr ''b.html'', Text_file (ustr ''<div id=a>Hello</div>'')),
               (ustr ''v.html'', Text_file (ustr ''World''))]"
  let ?B = "\<lparr>stack = [], text_nodes = [ustr ''Hello''], ids = {ustr ''a''}, anchor_hrefs = {}\<rparr>"
  let ?V = "\<lparr>stack = [], text_nodes = [ustr ''World''], ids = {}, anchor_hrefs = {}\<rparr>"
  have h: "?fs (ustr ''b.html'') = Some (Text_file (ustr ''<div id=a>Hello</div>''))
      \<and> ?fs (ustr ''v.html'') = Some (Text_file (ustr ''World''))
      \<and> snd (?scan (ustr ''<div id=a>Hello</div>'')) = None
      \<and> snd (?scan (ustr ''World'')) = None"
    by (simp add: ustr_def)
  have fb: "feed id init (fst (?scan (ustr ''<div id=a>Hello</div>''))) = Inr ?B"
    by (simp add: init_def handle_starttag_def handle_endtag_def getitem_def handle_data_def
        in_excluded_text_context_def EXCLUDED_TEXT_TAGS_def normalize_text_def strip_def
        isspace_def lower_def ascii_lower_def ustr_def)
  have fv: "feed id init (fst (?scan (ustr ''World''))) = Inr ?V"
    by (simp add: init_def handle_data_def in_excluded_text_context_def normalize_text_def
        strip_def isspace_def ustr_def)
  from all_checks_run[of ?fs "ustr ''b.html''" "ustr ''<div id=a>Hello</div>''" "ustr ''v.html''"
      "ustr ''World''" ?scan id False] h
  obtain b v tr rc where r: "feed id init (fst (?scan (ustr ''<div id=a>Hello</div>''))) = Inr b"
      "feed id init (fst (?scan (ustr ''World''))) = Inr v"
      "main id ?scan ?fs (ustr ''b.html'') (ustr ''v.html'') False = (tr, Returned rc)"
      "Print Stderr Text_nodes_mismatch \<in> set tr \<longleftrightarrow> \<not> False \<and> text_nodes b \<noteq> text_nodes v"
      "Print Stderr ID_set_mismatch \<in> set tr \<longleftrightarrow> ids b \<noteq> ids v"
      "Print Stderr Anchor_href_set_mismatch \<in> set tr \<longleftrightarrow> anchor_hrefs b \<noteq> anchor_hrefs v"
      "rc = 1 \<longleftrightarrow> \<not> (text_pass False b v \<and> ids b = ids v \<and> anchor_hrefs b = anchor_hrefs v)"
    by blast
  from r(1) fb have b: "b = ?B" by simp
  from r(2) fv have v: "v = ?V" by simp
  have ne: "ustr ''Hello'' \<noteq> ustr ''World''" by (simp add: ustr_def)
  from r(4) b v ne have 1: "Print Stderr Text_nodes_mismatch \<in> set tr" by simp
  from r(5) b v have 2: "Print Stderr ID_set_mismatch \<in> set tr" by simp
  from r(6) b v have 3: "Print Stderr Anchor_href_set_mismatch \<notin> set tr" by simp
  from r(7) b v have 4: "rc = 1" by simp
  from r(3) 1 2 3 4 show ?thesis by simp
qed

text \<open>
  The claim C3 as it was stated is about every pair of readable inputs. The base file of
  this run holds the readable text \<open><![x]>\<close>, on which the parser delivers no event and
  raises \<open>AssertionError\<close>: the program ends with that error after parsing the base
  file, the variant file is not read, no check is made and nothing is printed.
\<close>

theorem readable_inputs_counterexample:
  "map_of [(ustr ''b.html'', Text_file (ustr ''<![x]>'')),
           (ustr ''v.html'', Text_file (ustr ''Hello''))] (ustr ''b.html'')
     = Some (Text_file (ustr ''<![x]>''))
   \<and> map_of [(ustr ''b.html'', Text_file (ustr ''<![x]>'')),
             (ustr ''v.html'', Text_file (ustr ''Hello''))] (ustr ''v.html'')
     = Some (Text_file (ustr ''Hello''))
   \<and> main id (Pair [] \<circ> map_of [(ustr ''<![x]>'', AssertionError)])
        (map_of [(ustr ''b.html'', Text_file (ustr ''<![x]>'')),
                 (ustr ''v.html'', Text_file (ustr ''Hello''))])
        (ustr ''b.html'') (ustr ''v.html'') False
     = ([Path_exists (ustr ''b.html''), Path_exists (ustr ''v.html''),
         Read_text (ustr ''b.html''), Parse (ustr ''<![x]>'')], Raised AssertionError)"
  by (simp add: main_def extract_file_def init_def ustr_def)

text \<open>
  Claim C4, as the program has it. When \<open>exists()\<close> returns \<open>False\<close> for the base path,
  the program reports the base path and returns \<open>2\<close>; the variant path is then neither
  tested nor reported. When the base path exists and \<open>exists()\<close> returns \<open>False\<close> for the
  variant path, both paths are tested, the variant path is reported and the program
  returns \<open>2\<close>. When \<open>exists()\<close> raises, for the base path or, the base path existing, for
  the variant path, the program ends with that error and reports nothing. No file is read
  or parsed in any of these cases: a run that reads or parses a file has tested both
  paths first, and \<open>exists()\<close> has returned \<open>True\<close> for both.
\<close>

theorem missing_file_exit:
  "(fs base = None \<longrightarrow>
      main uc scan fs base variant u =
        ([Path_exists base, Print Stderr (Base_file_not_found base)], Returned 2))
   \<and> (fs base \<noteq> None \<and> fs base \<noteq> Some Stat_raises \<and> fs variant = None \<longrightarrow>
      main uc scan fs base variant u =
        ([Path_exists base, Path_exists variant,
          Print Stderr (Variant_file_not_found variant)], Returned 2))
   \<and> (fs base = Some Stat_raises \<longrightarrow>
      main uc scan fs base variant u = ([Path_exists base], Raised OSError))
   \<and> (fs base \<noteq> None \<and> fs base \<noteq> Some Stat_raises \<and> fs variant = Some Stat_raises \<longrightarrow>
      main uc scan fs base variant u = ([Path_exists base, Path_exists variant], Raised OSError))
   \<and> (main uc scan fs base variant u = (tr, r)
        \<and> (Read_text p \<in> set tr \<or> Parse s \<in> set tr) \<longrightarrow>
      fs base \<noteq> None \<and> fs base \<noteq> Some Stat_raises
      \<and> fs variant \<noteq> None \<and> fs variant \<noteq> Some Stat_raises
      \<and> (\<exists>rest. tr = Path_exists base # Path_exists variant # rest
            \<and> Path_exists base \<notin> set rest \<and> Path_exists variant \<notin> set rest))"
proof (intro conjI impI)
  assume "fs base = None"
  then show "main uc scan fs base variant u =
        ([Path_exists base, Print Stderr (Base_file_not_found base)], Returned 2)"
    by (simp add: main_def)
next
  assume "fs base \<noteq> None \<and> fs base \<noteq> Some Stat_raises \<and> fs variant = None"
  then show "main uc scan fs base variant u =
        ([Path_exists base, Path_exists variant,
          Print Stderr (Variant_file_not_found variant)], Returned 2)"
    by (simp add: main_def)
next
  assume "fs base = Some Stat_raises"
  then show "main uc scan fs base variant u = ([Path_exists base], Raised OSError)"
    by (simp add: main_def)
next
  assume "fs base \<noteq> None \<and> fs base \<noteq> Some Stat_raises \<and> fs variant = Some Stat_raises"
  then show "main uc scan fs base variant u
      = ([Path_exists base, Path_exists variant], Raised OSError)"
    by (simp add: main_def)
next
  assume a: "main uc scan fs base variant u = (tr, r)
        \<and> (Read_text p \<in> set tr \<or> Parse s \<in> set tr)"
  show b1: "fs base \<noteq> Some Stat_raises"
  proof
    assume "fs base = Some Stat_raises"
    with a show False by (auto simp: main_def)
  qed
  show b2: "fs base \<noteq> None"
  proof
    assume "fs base = None"
    with a show False by (auto simp: main_def)
  qed
  show v1: "fs variant \<noteq> Some Stat_raises"
  proof
    assume "fs variant = Some Stat_raises"
    with a b1 b2 show False by (auto simp: main_def)
  qed
  show v2: "fs variant \<noteq> None"
  proof
    assume "fs variant = None"
    with a b1 b2 show False by (auto simp: main_def)
  qed
  from main_both_exist[OF b2 v2 b1 v1, of uc scan u] a
  show "\<exists>rest. tr = Path_exists base # Path_exists variant # rest
            \<and> Path_exists base \<notin> set rest \<and> Path_exists variant \<notin> set rest"
    by auto
qed

theorem missing_file_exit_witness:
  "main id (\<lambda>s. ([Text s], None)) (map_of []) (ustr ''b.html'') (ustr ''v.html'') False
     = ([Path_exists (ustr ''b.html''), Print Stderr (Base_file_not_found (ustr ''b.html''))],
        Returned 2)
   \<and> main id (\<lambda>s. ([Text s], None)) (map_of [(ustr ''b.html'', Text_file (ustr ''Hello''))])
        (ustr ''b.html'') (ustr ''v.html'') False
     = ([Path_exists (ustr ''b.html''), Path_exists (ustr ''v.html''),
         Print Stderr (Variant_file_not_found (ustr ''v.html''))], Returned 2)
   \<and> main id (\<lambda>s. ([Text s], None)) (map_of [(ustr ''b.html'', Stat_raises)])
        (ustr ''b.html'') (ustr ''v.html'') False
     = ([Path_exists (ustr ''b.html'')], Raised OSError)"
proof -
  let ?scan = "\<lambda>s. ([Text s], None :: py_error option)"
  let ?fs = "map_of [(ustr ''b.html'', Text_file (ustr ''Hello''))]"
  let ?fs3 = "map_of [(ustr ''b.html'', Stat_raises)]"
  have h1: "map_of [] (ustr ''b.html'') = (None :: fs_entry option)" by simp
  have h2: "?fs (ustr ''b.html'') \<noteq> None \<and> ?fs (ustr ''b.html'') \<noteq> Some Stat_raises
      \<and> ?fs (ustr ''v.html'') = None"
    by (simp add: ustr_def)
  have h3: "?fs3 (ustr ''b.html'') = Some Stat_raises" by simp
  from missing_file_exit[of "map_of []" "ustr ''b.html''" id ?scan "ustr ''v.html''" False] h1
  have c1: "main id ?scan (map_of []) (ustr ''b.html'') (ustr ''v.html'') False
     = ([Path_exists (ustr ''b.html''), Print Stderr (Base_file_not_found (ustr ''b.html''))],
        Returned 2)"
    by blast
  from missing_file_exit[of ?fs "ustr ''b.html''" id ?scan "ustr ''v.html''" False] h2
  have c2: "main id ?scan ?fs (ustr ''b.html'') (ustr ''v.html'') False
     = ([Path_exists (ustr ''b.html''), Path_exists (ustr ''v.html''),
         Print Stderr (Variant_file_not_found (ustr ''v.html''))], Returned 2)"
    by blast
  from missing_file_exit[of ?fs3 "ustr ''b.html''" id ?scan "ustr ''v.html''" False] h3
  have c3: "main id ?scan ?fs3 (ustr ''b.html'') (ustr ''v.html'') False
     = ([Path_exists (ustr ''b.html'')], Raised OSError)"
    by blast
  from c1 c2 c3 show ?thesis by blast
qed

text \<open>
  The claim C4 as it was stated asks for each missing path to be reported. When neither
  path exists, the variant path is not reported, nor tested. (The scanner of this run
  gives no event; no file is parsed.)
\<close>

theorem each_missing_path_reported_counterexample:
  "map_of [] (ustr ''b.html'') = (None :: fs_entry option)
   \<and> map_of [] (ustr ''v.html'') = (None :: fs_entry option)
   \<and> Print Stderr (Variant_file_not_found (ustr ''v.html''))
       \<notin> set (fst (main id (Pair [] \<circ> map_of []) (map_of [])
                      (ustr ''b.html'') (ustr ''v.html'') False))
   \<and> Path_exists (ustr ''v.html'')
       \<notin> set (fst (main id (Pair [] \<circ> map_of []) (map_of [])
                      (ustr ''b.html'') (ustr ''v.html'') False))"
  by (simp add: main_def ustr_def)

text \<open>
  Claim C5. When the text nodes of the base and of the variant are a permutation of one
  another and differ as sequences, the text check fails in the ordered mode, which
  reports the mismatch and fails the comparison, and passes in the unordered mode, which
  reports no text mismatch and passes exactly when the id sets and the href sets agree.
  The id check and the href check report the same in both modes.
\<close>

theorem order_sensitivity:
  "mset (text_nodes b) = mset (text_nodes v) \<and> text_nodes b \<noteq> text_nodes v \<longrightarrow>
     \<not> fst (check_text False b v (True, []))
     \<and> fst (check_text True b v (True, []))
     \<and> Text_nodes_mismatch \<in> set (snd (run_checks False b v))
     \<and> \<not> fst (run_checks False b v)
     \<and> Text_nodes_mismatch_unordered \<notin> set (snd (run_checks True b v))
     \<and> fst (run_checks True b v) = (ids b = ids v \<and> anchor_hrefs b = anchor_hrefs v)
     \<and> (ID_set_mismatch \<in> set (snd (run_checks True b v))
          \<longleftrightarrow> ID_set_mismatch \<in> set (snd (run_checks False b v)))
     \<and> (Anchor_href_set_mismatch \<in> set (snd (run_checks True b v))
          \<longleftrightarrow> Anchor_href_set_mismatch \<in> set (snd (run_checks False b v)))"
proof
  assume a: "mset (text_nodes b) = mset (text_nodes v) \<and> text_nodes b \<noteq> text_nodes v"
  then have p: "text_pass True b v" "\<not> text_pass False b v" by (simp_all add: text_pass_def)
  from p have 1: "\<not> fst (check_text False b v (True, []))" by (simp add: check_text_fst)
  from p have 2: "fst (check_text True b v (True, []))" by (simp add: check_text_fst)
  from p have 3: "Text_nodes_mismatch \<in> set (snd (run_checks False b v))"
    by (simp add: run_checks_props(2))
  from p have 4: "\<not> fst (run_checks False b v)" by (simp add: run_checks_props(1))
  from p have 5: "Text_nodes_mismatch_unordered \<notin> set (snd (run_checks True b v))"
    by (simp add: run_checks_props(3))
  from p have 6: "fst (run_checks True b v) = (ids b = ids v \<and> anchor_hrefs b = anchor_hrefs v)"
    by (simp add: run_checks_props(1))
  have 7: "ID_set_mismatch \<in> set (snd (run_checks True b v))
          \<longleftrightarrow> ID_set_mismatch \<in> set (snd (run_checks False b v))"
    by (simp only: run_checks_props(4))
  have 8: "Anchor_href_set_mismatch \<in> set (snd (run_checks True b v))
          \<longleftrightarrow> Anchor_href_set_mismatch \<in> set (snd (run_checks False b v))"
    by (simp only: run_checks_props(5))
  from 1 2 3 4 5 6 7 8 show "\<not> fst (check_text False b v (True, []))
     \<and> fst (check_text True b v (True, []))
     \<and> Text_nodes_mismatch \<in> set (snd (run_checks False b v))
     \<and> \<not> fst (run_checks False b v)
     \<and> Text_nodes_mismatch_unordered \<notin> set (snd (run_checks True b v))
     \<and> fst (run_checks True b v) = (ids b = ids v \<and> anchor_hrefs b = anchor_hrefs v)
     \<and> (ID_set_mismatch \<in> set (snd (run_checks True b v))
          \<longleftrightarrow> ID_set_mismatch \<in> set (snd (run_checks False b v)))
     \<and> (Anchor_href_set_mismatch \<in> set (snd (run_checks True b v))
          \<longleftrightarrow> Anchor_href_set_mismatch \<in> set (snd (run_checks False b v)))"
    by blast
qed

theorem order_sensitivity_witness:
  "mset (text_nodes \<lparr>stack = [], text_nodes = [ustr ''Hello'', ustr ''World''], ids = {}, anchor_hrefs = {}\<rparr>)
     = mset (text_nodes \<lparr>stack = [], text_nodes = [ustr ''World'', ustr ''Hello''], ids = {}, anchor_hrefs = {}\<rparr>)
   \<and> \<not> fst (run_checks False
        \<lparr>stack = [], text_nodes = [ustr ''Hello'', ustr ''World''], ids = {}, anchor_hrefs = {}\<rparr>
        \<lparr>stack = [], text_nodes = [ustr ''World'', ustr ''Hello''], ids = {}, anchor_hrefs = {}\<rparr>)
   \<and> fst (run_checks True
        \<lparr>stack = [], text_nodes = [ustr ''Hello'', ustr ''World''], ids = {}, anchor_hrefs = {}\<rparr>
        \<lparr>stack = [], text_nodes = [ustr ''World'', ustr ''Hello''], ids = {}, anchor_hrefs = {}\<rparr>)"
proof -
  let ?B = "\<lparr>stack = [], text_nodes = [ustr ''Hello'', ustr ''World''], ids = {}, anchor_hrefs = {}\<rparr>"
  let ?V = "\<lparr>stack = [], text_nodes = [ustr ''World'', ustr ''Hello''], ids = {}, anchor_hrefs = {}\<rparr>"
  have h: "mset (text_nodes ?B) = mset (text_nodes ?V) \<and> text_nodes ?B \<noteq> text_nodes ?V"
    by (simp add: ustr_def)
  from order_sensitivity[of ?B ?V] h
  have "\<not> fst (run_checks False ?B ?V)
      \<and> fst (run_checks True ?B ?V) = (ids ?B = ids ?V \<and> anchor_hrefs ?B = anchor_hrefs ?V)"
    by blast
  with h show ?thesis by simp
qed

text \<open>
  Claim C6, as the program has it. Compared with itself, an extraction result passes all
  three checks in both modes, with nothing reported. When the base path and the variant
  path hold the same readable text, on which the scanner does not raise, the program
  reads and parses both, prints \<open>OK\<close> and returns \<open>0\<close>, in both modes.
\<close>

theorem identity_passes:
  "run_checks u x x = (True, [])
   \<and> (fs base = Some (Text_file s) \<and> fs variant = Some (Text_file s)
        \<and> snd (scan s) = None \<longrightarrow>
        main uc scan fs base variant u =
          ([Path_exists base, Path_exists variant, Read_text base, Parse s,
            Read_text variant, Parse s, Print Stdout OK], Returned 0))"
proof (intro conjI impI)
  have p: "text_pass u x x \<and> ids x = ids x \<and> anchor_hrefs x = anchor_hrefs x"
    by (simp add: text_pass_def)
  have "fst (run_checks u x x)" by (simp add: run_checks_props(1) text_pass_def)
  moreover from p have "snd (run_checks u x x) = []" by (rule run_checks_props(6))
  ultimately show r: "run_checks u x x = (True, [])" by (simp add: prod_eq_iff)
  assume a: "fs base = Some (Text_file s) \<and> fs variant = Some (Text_file s)
        \<and> snd (scan s) = None"
  from feed_total obtain b where b: "feed uc init (fst (scan s)) = Inr b" by blast
  from a have sc: "scan s = (fst (scan s), None)" by (simp add: prod_eq_iff)
  from a have fb: "fs base = Some (Text_file s)" and fv: "fs variant = Some (Text_file s)"
    by simp_all
  have rb: "run_checks u b b = (True, [])"
  proof -
    have "fst (run_checks u b b)" by (simp add: run_checks_props(1) text_pass_def)
    moreover have "snd (run_checks u b b) = []"
      by (rule run_checks_props(6)) (simp add: text_pass_def)
    ultimately show ?thesis by (simp add: prod_eq_iff)
  qed
  show "main uc scan fs base variant u =
          ([Path_exists base, Path_exists variant, Read_text base, Parse s,
            Read_text variant, Parse s, Print Stdout OK], Returned 0)"
    using fb fv sc b
    by (simp add: main_readable[where sb = s and sv = s and eb = "fst (scan s)"
          and ev = "fst (scan s)" and b = b and v = b] rb)
qed

theorem identity_passes_witness:
  "main id (\<lambda>s. ([Text s], None))
      (map_of [(ustr ''index.html'', Text_file (ustr ''Hello  world''))])
      (ustr ''index.html'') (ustr ''index.html'') True
     = ([Path_exists (ustr ''index.html''), Path_exists (ustr ''index.html''),
         Read_text (ustr ''index.html''), Parse (ustr ''Hello  world''),
         Read_text (ustr ''index.html''), Parse (ustr ''Hello  world''),
         Print Stdout OK], Returned 0)"
proof -
  let ?scan = "\<lambda>s. ([Text s], None :: py_error option)"
  let ?fs = "map_of [(ustr ''index.html'', Text_file (ustr ''Hello  world''))]"
  have h: "?fs (ustr ''index.html'') = Some (Text_file (ustr ''Hello  world''))
      \<and> ?fs (ustr ''index.html'') = Some (Text_file (ustr ''Hello  world''))
      \<and> snd (?scan (ustr ''Hello  world'')) = None"
    by simp
  from identity_passes[of True _ ?fs "ustr ''index.html''" "ustr ''Hello  world''"
      "ustr ''index.html''" ?scan id] h
  show ?thesis by blast
qed

text \<open>
  The claim C6 as it was stated is about every input document. The file of this run
  holds the readable text \<open><![x]>\<close>, on which the parser delivers no event and raises
  \<open>AssertionError\<close>: compared with itself, the program ends with that error after
  parsing the file once, and neither prints \<open>OK\<close> nor returns \<open>0\<close>.
\<close>

theorem identity_every_document_counterexample:
  "map_of [(ustr ''index.html'', Text_file (ustr ''<![x]>''))] (ustr ''index.html'')
     = Some (Text_file (ustr ''<![x]>''))
   \<and> main id (Pair [] \<circ> map_of [(ustr ''<![x]>'', AssertionError)])
        (map_of [(ustr ''index.html'', Text_file (ustr ''<![x]>''))])
        (ustr ''index.html'') (ustr ''index.html'') True
     = ([Path_exists (ustr ''index.html''), Path_exists (ustr ''index.html''),
         Read_text (ustr ''index.html''), Parse (ustr ''<![x]>'')], Raised AssertionError)"
  by (simp add: main_def extract_file_def init_def ustr_def)

end
